theory Spec2Isabelle
  imports Complex_Main "HOL-Library.AList"
begin

section \<open>JavaScript values\<close>

text \<open>
  The computational functions of \<^verbatim>\<open>src/App.jsx\<close> are embedded as HOL functions.
  A JavaScript number is either finite or one of the three special values. Finite
  numbers are modelled by exact rationals: the rounding and the overflow of IEEE
  doubles are not modelled, and there is no negative zero.
  A string is a list of code units; only the code units below 256 are represented.
\<close>

datatype jsnum = Fin rat | PosInf | NegInf | NaN

record jsdate =
  timeValue :: int
  fullYear :: int
  month :: nat
  dayOfMonth :: nat

text \<open>
  The values a spreadsheet cell or a function argument can hold. A \<^verbatim>\<open>Date\<close> object is
  \<open>DateObj None\<close> when it is an invalid date, and otherwise carries its time value and the
  local calendar fields that \<^verbatim>\<open>getFullYear\<close>, \<^verbatim>\<open>getMonth\<close> and \<^verbatim>\<open>getDate\<close> return.
\<close>

datatype jsval = Undefined | Null | Bool bool | Num jsnum | Str string | DateObj "jsdate option"

text \<open>
  \<^verbatim>\<open>Number(x)\<close>. The conversion of a string to a number is a built-in of the language
  and is taken as the parameter \<open>S\<close>.
\<close>

definition Number :: "(string \<Rightarrow> jsnum) \<Rightarrow> jsval \<Rightarrow> jsnum" where
  "Number S v =
     (case v of
        Undefined \<Rightarrow> NaN
      | Null \<Rightarrow> Fin 0
      | Bool b \<Rightarrow> Fin (if b then 1 else 0)
      | Num n \<Rightarrow> n
      | Str s \<Rightarrow> S s
      | DateObj d \<Rightarrow> (case d of None \<Rightarrow> NaN | Some t \<Rightarrow> Fin (of_int (timeValue t))))"

fun isFinite :: "jsnum \<Rightarrow> bool" where
  "isFinite (Fin q) = True"
| "isFinite PosInf = False"
| "isFinite NegInf = False"
| "isFinite NaN = False"

section \<open>Strings\<close>

definition code_unit :: "char \<Rightarrow> nat" where
  "code_unit c = of_char c"

text \<open>White space and line terminators of the language, as far as they lie below 256.\<close>

definition is_line_terminator :: "char \<Rightarrow> bool" where
  "is_line_terminator c = (code_unit c = 10 \<or> code_unit c = 13)"

definition is_space :: "char \<Rightarrow> bool" where
  "is_space c = (code_unit c \<in> {9, 10, 11, 12, 13, 32, 160})"

text \<open>The character class \<^verbatim>\<open>[A-Za-z]\<close>.\<close>

definition is_alpha :: "char \<Rightarrow> bool" where
  "is_alpha c = ((65 \<le> code_unit c \<and> code_unit c \<le> 90) \<or> (97 \<le> code_unit c \<and> code_unit c \<le> 122))"

text \<open>
  Case folding of a regular expression with the \<^verbatim>\<open>i\<close> flag: an ASCII letter of the
  pattern is matched by its two cases only.
\<close>

definition canonicalize :: "char \<Rightarrow> char" where
  "canonicalize c =
     (if 97 \<le> code_unit c \<and> code_unit c \<le> 122 then char_of (code_unit c - 32) else c)"

definition trim :: "string \<Rightarrow> string" where
  "trim s = rev (dropWhile is_space (rev (dropWhile is_space s)))"

text \<open>\<^verbatim>\<open>s.split(c)\<close> for a separator of one code unit: the list is never empty.\<close>

fun split :: "char \<Rightarrow> string \<Rightarrow> string list" where
  "split c [] = [[]]"
| "split c (x # xs) =
     (if x = c then [] # split c xs
      else (case split c xs of [] \<Rightarrow> [[x]] | p # ps \<Rightarrow> (x # p) # ps))"

text \<open>\<^verbatim>\<open>parts[i] ? parts[i].trim() : ""\<close>: a missing or empty part gives the empty string.\<close>

definition part_trimmed :: "string list \<Rightarrow> nat \<Rightarrow> string" where
  "part_trimmed parts i =
     (if i < length parts \<and> parts ! i \<noteq> [] then trim (parts ! i) else [])"

text \<open>
  A match of \<^verbatim>\<open>\s+W$\<close> with the \<^verbatim>\<open>i\<close> flag that starts at the head of the string:
  one white space, then either the word up to the end or a match of the same again.
\<close>

fun matches_ws_word :: "string \<Rightarrow> string \<Rightarrow> bool" where
  "matches_ws_word w [] = False"
| "matches_ws_word w (c # cs) =
     (is_space c \<and> (map canonicalize cs = map canonicalize w \<or> matches_ws_word w cs))"

text \<open>
  \<^verbatim>\<open>s.replace(/\s+W$/i, "")\<close>: the leftmost match is removed; it reaches the end of the
  string, so what stays is the text before it.
\<close>

fun replace_trailing :: "string \<Rightarrow> string \<Rightarrow> string" where
  "replace_trailing w [] = []"
| "replace_trailing w (c # cs) =
     (if matches_ws_word w (c # cs) then [] else c # replace_trailing w cs)"

text \<open>
  \<^verbatim>\<open>s.match(/[A-Za-z].*$/)\<close>: the leftmost position with a letter from which no line
  terminator follows up to the end of the string (the dot does not match one, and
  \<^verbatim>\<open>$\<close> is the end of the input).
\<close>

fun match_alpha_rest :: "string \<Rightarrow> string option" where
  "match_alpha_rest [] = None"
| "match_alpha_rest (c # cs) =
     (if is_alpha c \<and> list_all (\<lambda>d. \<not> is_line_terminator d) cs then Some (c # cs)
      else match_alpha_rest cs)"

text \<open>The decimal digits of a number, as \<^verbatim>\<open>String(n)\<close> writes an integer.\<close>

definition digit_char :: "nat \<Rightarrow> char" where
  "digit_char d = ''0123456789'' ! d"

fun show_nat :: "nat \<Rightarrow> string" where
  "show_nat n = (if n < 10 then [digit_char n] else show_nat (n div 10) @ [digit_char (n mod 10)])"

definition show_int :: "int \<Rightarrow> string" where
  "show_int i = (if i < 0 then CHR ''-'' # show_nat (nat (- i)) else show_nat (nat i))"

text \<open>\<^verbatim>\<open>s.padStart(2, "0")\<close>.\<close>

definition padStart2 :: "string \<Rightarrow> string" where
  "padStart2 s = replicate (2 - length s) CHR ''0'' @ s"

section \<open>Field Normalizer\<close>

definition normalizeDate :: "jsval \<Rightarrow> string" where
  "normalizeDate v =
     (case v of
        DateObj (Some d) \<Rightarrow>
          show_int (fullYear d) @ ''-'' @ padStart2 (show_nat (month d + 1)) @ ''-''
            @ padStart2 (show_nat (dayOfMonth d))
      | Str s \<Rightarrow> s
      | _ \<Rightarrow> '''')"

record hierarchy =
  allotment :: string
  pasture :: string

text \<open>
  The argument of \<open>parseAncestry\<close> and of \<open>extractKA\<close> is a string or absent
  (\<^verbatim>\<open>null\<close>, \<^verbatim>\<open>undefined\<close>); the empty string is falsy as well.
\<close>

definition parseAncestry :: "string option \<Rightarrow> hierarchy" where
  "parseAncestry ancestry =
     (case ancestry of
        None \<Rightarrow> \<lparr>allotment = '''', pasture = ''''\<rparr>
      | Some s \<Rightarrow>
          if s = '''' then \<lparr>allotment = '''', pasture = ''''\<rparr>
          else
            let parts = split CHR ''>'' s;
                allotmentRaw = part_trimmed parts 0;
                pastureRaw = part_trimmed parts 1
            in \<lparr>allotment = trim (replace_trailing ''Allotment'' allotmentRaw),
                pasture = trim (replace_trailing ''Pasture'' pastureRaw)\<rparr>)"

definition extractKA :: "string option \<Rightarrow> string" where
  "extractKA siteId =
     (case siteId of
        None \<Rightarrow> ''''
      | Some s \<Rightarrow>
          if s = '''' then ''''
          else (case match_alpha_rest s of Some m \<Rightarrow> m | None \<Rightarrow> ''''))"

definition asNumber :: "(string \<Rightarrow> jsnum) \<Rightarrow> jsval \<Rightarrow> jsnum" where
  "asNumber S x = (let n = Number S x in if isFinite n then n else NaN)"

text \<open>\<^verbatim>\<open>Math.round\<close>: the nearest integer, a tie going to the larger one.\<close>

definition Math_round :: "rat \<Rightarrow> rat" where
  "Math_round q = of_int \<lfloor>q + 1 / 2\<rfloor>"

text \<open>The rounding of a finite number: \<^verbatim>\<open>Math.round(n * factor) / factor\<close>.\<close>

definition round_scaled :: "rat \<Rightarrow> int \<Rightarrow> rat" where
  "round_scaled n digits = (let factor = 10 powi digits in Math_round (n * factor) / factor)"

definition round_js :: "(string \<Rightarrow> jsnum) \<Rightarrow> jsval \<Rightarrow> int \<Rightarrow> jsval" where
  "round_js S v digits =
     (case asNumber S v of
        Fin n \<Rightarrow> Num (Fin (round_scaled n digits))
      | _ \<Rightarrow> Str '''')"

section \<open>Rows\<close>

text \<open>
  The four key columns are shared by the processed yield rows, the template rows, the
  groups and the production rows. A processed yield row has strings there: they come
  from \<open>normalizeDate\<close>, \<open>parseAncestry\<close> and \<open>extractKA\<close>.
\<close>

record keyed =
  DATE :: string
  ALLOTMENT :: string
  PASTURE :: string
  KA :: string

record yield_row = keyed +
  nValue :: jsval

record template_row = keyed +
  BAG :: nat
  GW :: string
  Dry_WT :: string
  minus_BAG :: string
  NET_WT :: string

text \<open>
  A calibration row as uploaded: \<^verbatim>\<open>KA\<close> is a string or \<^verbatim>\<open>null\<close>, the columns
  \<^verbatim>\<open>BAG #\<close> and \<^verbatim>\<open>NET WT.\<close> are cells of any kind.
\<close>

record calibration_row =
  cal_KA :: "string option"
  cal_BAG :: jsval
  cal_NET_WT :: jsval

record stats =
  sumXY :: rat
  sumX2 :: rat
  stat_count :: nat

record group = keyed +
  sumN :: rat
  count :: nat

record production_row = keyed +
  avg_nValue :: jsval
  slope_g_per_bag :: jsval
  Production :: jsval

record production_result =
  rows :: "production_row list"
  missingKAs :: "string list"
  slopes :: "(string \<times> rat) list"

definition BAG_NUMBERS :: "nat list" where
  "BAG_NUMBERS = [1, 3, 5]"

definition LBS_PER_ACRE_FACTOR :: rat where
  "LBS_PER_ACRE_FACTOR = 557612 / 10000"

text \<open>The key \<^verbatim>\<open>`${DATE}||${ALLOTMENT}||${PASTURE}||${KA}`\<close>.\<close>

definition group_key :: "'a keyed_scheme \<Rightarrow> string" where
  "group_key r = DATE r @ ''||'' @ ALLOTMENT r @ ''||'' @ PASTURE r @ ''||'' @ KA r"

section \<open>Plain objects used as tables\<close>

text \<open>
  \<open>perKA\<close>, \<open>slopes\<close> and \<open>groups\<close> are object literals \<^verbatim>\<open>{}\<close>: a read
  \<^verbatim>\<open>obj[k]\<close> finds the object's own property or else the member of that name of
  \<^verbatim>\<open>Object.prototype\<close>. The own properties are kept in the order of their creation.
\<close>

definition object_prototype_names :: "string list" where
  "object_prototype_names =
     [''constructor'', ''hasOwnProperty'', ''isPrototypeOf'', ''propertyIsEnumerable'',
      ''toLocaleString'', ''toString'', ''valueOf'', ''__proto__'', ''__defineGetter__'',
      ''__defineSetter__'', ''__lookupGetter__'', ''__lookupSetter__'']"

datatype 'a property = Own 'a | Inherited | Missing

definition get_property :: "(string \<times> 'a) list \<Rightarrow> string \<Rightarrow> 'a property" where
  "get_property obj k =
     (case map_of obj k of
        Some v \<Rightarrow> Own v
      | None \<Rightarrow> if k \<in> set object_prototype_names then Inherited else Missing)"

section \<open>Sorting\<close>

text \<open>
  \<^verbatim>\<open>localeCompare\<close> depends on the host and is the parameter \<open>lc\<close>.
  \<^verbatim>\<open>Array.prototype.sort\<close> is stable; it is modelled by a stable insertion sort.
\<close>

fun insert_sorted :: "('a \<Rightarrow> 'a \<Rightarrow> int) \<Rightarrow> 'a \<Rightarrow> 'a list \<Rightarrow> 'a list" where
  "insert_sorted cmp x [] = [x]"
| "insert_sorted cmp x (y # ys) =
     (if cmp x y \<le> 0 then x # y # ys else y # insert_sorted cmp x ys)"

definition sort_js :: "('a \<Rightarrow> 'a \<Rightarrow> int) \<Rightarrow> 'a list \<Rightarrow> 'a list" where
  "sort_js cmp xs = foldr (insert_sorted cmp) xs []"

text \<open>The comparator that both sorts use.\<close>

definition compareRows :: "(string \<Rightarrow> string \<Rightarrow> int) \<Rightarrow> 'a keyed_scheme \<Rightarrow> 'a keyed_scheme \<Rightarrow> int" where
  "compareRows lc a b =
     (if ALLOTMENT a \<noteq> ALLOTMENT b then lc (ALLOTMENT a) (ALLOTMENT b)
      else if PASTURE a \<noteq> PASTURE b then lc (PASTURE a) (PASTURE b)
      else if DATE a \<noteq> DATE b then lc (DATE a) (DATE b)
      else lc (KA a) (KA b))"

section \<open>Template Builder\<close>

definition blank_row :: "yield_row \<Rightarrow> nat \<Rightarrow> template_row" where
  "blank_row row bag =
     \<lparr>DATE = DATE row, ALLOTMENT = ALLOTMENT row, PASTURE = PASTURE row, KA = KA row,
      BAG = bag, GW = '''', Dry_WT = '''', minus_BAG = '''', NET_WT = ''''\<rparr>"

text \<open>The loop over the yield rows, with the set \<open>seen\<close> and the rows pushed so far.\<close>

fun template_loop :: "yield_row list \<Rightarrow> string set \<Rightarrow> template_row list \<Rightarrow> template_row list" where
  "template_loop [] seen templateRows = templateRows"
| "template_loop (row # rest) seen templateRows =
     (if DATE row = '''' \<or> KA row = '''' then template_loop rest seen templateRows
      else if group_key row \<in> seen then template_loop rest seen templateRows
      else template_loop rest (insert (group_key row) seen)
             (templateRows @ map (blank_row row) BAG_NUMBERS))"

definition makeProductionTemplateRows ::
    "(string \<Rightarrow> string \<Rightarrow> int) \<Rightarrow> yield_row list \<Rightarrow> template_row list" where
  "makeProductionTemplateRows lc cyRowsProcessed =
     sort_js (compareRows lc) (template_loop cyRowsProcessed {} [])"

section \<open>Calibration Engine\<close>

definition slope_step ::
    "(string \<Rightarrow> jsnum) \<Rightarrow> (string \<times> stats) list \<Rightarrow> calibration_row \<Rightarrow> (string \<times> stats) list" where
  "slope_step S perKA row =
     (case cal_KA row of
        None \<Rightarrow> perKA
      | Some ka \<Rightarrow>
          (case asNumber S (cal_BAG row) of
             Fin x \<Rightarrow>
               (case asNumber S (cal_NET_WT row) of
                  Fin y \<Rightarrow>
                    if ka = '''' then perKA
                    else
                      let perKA1 =
                            (case get_property perKA ka of
                               Missing \<Rightarrow> perKA @ [(ka, \<lparr>sumXY = 0, sumX2 = 0, stat_count = 0\<rparr>)]
                             | _ \<Rightarrow> perKA)
                      in (case get_property perKA1 ka of
                            Own st \<Rightarrow>
                              AList.update ka
                                (st\<lparr>sumXY := sumXY st + x * y, sumX2 := sumX2 st + x * x,
                                    stat_count := stat_count st + 1\<rparr>) perKA1
                          | _ \<Rightarrow> perKA1)
                | _ \<Rightarrow> perKA)
           | _ \<Rightarrow> perKA))"

text \<open>
  The slope table is used for lookups only; the order in which its keys are enumerated
  is not modelled.
\<close>

definition computeSlopesByKA :: "(string \<Rightarrow> jsnum) \<Rightarrow> calibration_row list \<Rightarrow> (string \<times> rat) list" where
  "computeSlopesByKA S prodRows =
     (let perKA = foldl (slope_step S) [] prodRows
      in map (\<lambda>(ka, st). (ka, sumXY st / sumX2 st)) (filter (\<lambda>(ka, st). sumX2 st > 0) perKA))"

section \<open>Production Aggregator\<close>

definition group_step ::
    "(string \<Rightarrow> jsnum) \<Rightarrow> (string \<times> group) list \<Rightarrow> yield_row \<Rightarrow> (string \<times> group) list" where
  "group_step S groups row =
     (if KA row = '''' \<or> DATE row = '''' then groups
      else
        (case asNumber S (nValue row) of
           Fin n \<Rightarrow>
             let key = group_key row;
                 groups1 =
                   (case get_property groups key of
                      Missing \<Rightarrow>
                        groups @ [(key, \<lparr>DATE = DATE row, ALLOTMENT = ALLOTMENT row,
                                         PASTURE = PASTURE row, KA = KA row, sumN = 0, count = 0\<rparr>)]
                    | _ \<Rightarrow> groups)
             in (case get_property groups1 key of
                   Own g \<Rightarrow> AList.update key (g\<lparr>sumN := sumN g + n, count := count g + 1\<rparr>) groups1
                 | _ \<Rightarrow> groups1)
         | _ \<Rightarrow> groups))"

definition group_rows :: "(string \<Rightarrow> jsnum) \<Rightarrow> yield_row list \<Rightarrow> (string \<times> group) list" where
  "group_rows S cyRowsProcessed = foldl (group_step S) [] cyRowsProcessed"

text \<open>
  One turn of the loop over \<^verbatim>\<open>Object.values(groups)\<close>; the state is the rows pushed so
  far and the set \<open>missingKAs\<close> in the order of insertion.
\<close>

definition emit_step ::
    "(string \<Rightarrow> jsnum) \<Rightarrow> (string \<times> rat) list \<Rightarrow> production_row list \<times> string list \<Rightarrow> group
       \<Rightarrow> production_row list \<times> string list" where
  "emit_step S slopeTable acc g =
     (if count g = 0 then acc
      else
        let avgN = sumN g / of_nat (count g)
        in (case get_property slopeTable (KA g) of
              Own slope \<Rightarrow>
                let productionLbsAcre = slope * avgN * LBS_PER_ACRE_FACTOR
                in (fst acc @
                      [\<lparr>DATE = DATE g, ALLOTMENT = ALLOTMENT g, PASTURE = PASTURE g, KA = KA g,
                        avg_nValue = round_js S (Num (Fin avgN)) 3,
                        slope_g_per_bag = round_js S (Num (Fin slope)) 4,
                        Production = round_js S (Num (Fin productionLbsAcre)) 2\<rparr>],
                    snd acc)
            | _ \<Rightarrow> (fst acc, if KA g \<in> set (snd acc) then snd acc else snd acc @ [KA g])))"

definition computeProductionFromCY ::
    "(string \<Rightarrow> string \<Rightarrow> int) \<Rightarrow> (string \<Rightarrow> jsnum) \<Rightarrow> yield_row list \<Rightarrow> calibration_row list
       \<Rightarrow> production_result" where
  "computeProductionFromCY lc S cyRowsProcessed prodRows =
     (let slopeTable = computeSlopesByKA S prodRows;
          groups = group_rows S cyRowsProcessed;
          out = foldl (emit_step S slopeTable) ([], []) (map snd groups)
      in \<lparr>rows = sort_js (compareRows lc) (fst out), missingKAs = snd out, slopes = slopeTable\<rparr>)"

text \<open>
  A concrete string comparison for the examples: the order of the code units, the
  shorter string first.
\<close>

fun compare_units :: "string \<Rightarrow> string \<Rightarrow> int" where
  "compare_units [] [] = 0"
| "compare_units [] (y # ys) = - 1"
| "compare_units (x # xs) [] = 1"
| "compare_units (x # xs) (y # ys) =
     (if code_unit x < code_unit y then - 1
      else if code_unit y < code_unit x then 1
      else compare_units xs ys)"

text \<open>
  The examples hold no text in a numeric column; for them the conversion of strings to
  numbers is fixed to this function.
\<close>

definition text_is_NaN :: "string \<Rightarrow> jsnum" where
  "text_is_NaN s = NaN"

section \<open>Notions of the specification\<close>

subsection \<open>Hierarchy paths\<close>

text \<open>
  The first two segments of a path, as the specification describes them: the text before
  the first separator, and the text between the first and the second separator (empty
  when there is no separator).
\<close>

definition segment0 :: "string \<Rightarrow> string" where
  "segment0 s = takeWhile (\<lambda>c. c \<noteq> CHR ''>'') s"

definition segment1 :: "string \<Rightarrow> string" where
  "segment1 s = takeWhile (\<lambda>c. c \<noteq> CHR ''>'') (drop 1 (dropWhile (\<lambda>c. c \<noteq> CHR ''>'') s))"

text \<open>
  The last word of a text is its longest suffix without white space; two words are the
  same up to case when they agree after case folding.
\<close>

definition last_word :: "string \<Rightarrow> string" where
  "last_word t = rev (takeWhile (\<lambda>c. \<not> is_space c) (rev t))"

definition without_last_word :: "string \<Rightarrow> string" where
  "without_last_word t = rev (dropWhile is_space (dropWhile (\<lambda>c. \<not> is_space c) (rev t)))"

definition same_word :: "string \<Rightarrow> string \<Rightarrow> bool" where
  "same_word v w = (map canonicalize v = map canonicalize w)"

text \<open>Stripping a trailing word, as the specification words it.\<close>

definition strip_trailing_word :: "string \<Rightarrow> string \<Rightarrow> string" where
  "strip_trailing_word w t = (if same_word (last_word t) w then without_last_word t else t)"

definition parseHierarchy_spec :: "string option \<Rightarrow> hierarchy" where
  "parseHierarchy_spec pathString =
     (case pathString of
        None \<Rightarrow> \<lparr>allotment = '''', pasture = ''''\<rparr>
      | Some s \<Rightarrow>
          \<lparr>allotment = strip_trailing_word ''Allotment'' (trim (segment0 s)),
           pasture = strip_trailing_word ''Pasture'' (trim (segment1 s))\<rparr>)"

text \<open>
  Stripping a trailing word only where white space stands before it: a segment that
  consists of the word alone is kept.
\<close>

definition strip_spaced_word :: "string \<Rightarrow> string \<Rightarrow> string" where
  "strip_spaced_word w t =
     (if same_word (last_word t) w \<and> length (last_word t) < length t then without_last_word t
      else t)"

definition parseHierarchy_spaced :: "string option \<Rightarrow> hierarchy" where
  "parseHierarchy_spaced pathString =
     (case pathString of
        None \<Rightarrow> \<lparr>allotment = '''', pasture = ''''\<rparr>
      | Some s \<Rightarrow>
          \<lparr>allotment = strip_spaced_word ''Allotment'' (trim (segment0 s)),
           pasture = strip_spaced_word ''Pasture'' (trim (segment1 s))\<rparr>)"

text \<open>A text is trimmed when it neither starts nor ends with white space.\<close>

definition trimmed :: "string \<Rightarrow> bool" where
  "trimmed t = (t = [] \<or> (\<not> is_space (hd t) \<and> \<not> is_space (last t)))"

subsection \<open>Rounding\<close>



subsection \<open>Order of the output\<close>



subsection \<open>Yield groups\<close>

text \<open>
  A yield row takes part in the aggregation when it has a unit code and a date and its
  yield value is a finite number. The yield group of a joined key consists of the rows
  of the collection that take part and have that key, in the order of the collection;
  its average yield value is the mean of their yield values.
\<close>

definition eligible :: "(string \<Rightarrow> jsnum) \<Rightarrow> yield_row \<Rightarrow> bool" where
  "eligible S r = (KA r \<noteq> '''' \<and> DATE r \<noteq> '''' \<and> isFinite (asNumber S (nValue r)))"

definition yield_value :: "(string \<Rightarrow> jsnum) \<Rightarrow> yield_row \<Rightarrow> rat" where
  "yield_value S r = (case asNumber S (nValue r) of Fin n \<Rightarrow> n | _ \<Rightarrow> 0)"

definition members :: "(string \<Rightarrow> jsnum) \<Rightarrow> yield_row list \<Rightarrow> string \<Rightarrow> yield_row list" where
  "members S cy k = filter (\<lambda>r. eligible S r \<and> group_key r = k) cy"

definition avgYieldValue :: "(string \<Rightarrow> jsnum) \<Rightarrow> yield_row list \<Rightarrow> rat" where
  "avgYieldValue S ms = sum_list (map (yield_value S) ms) / of_nat (length ms)"

text \<open>The record of a group: the key columns of its first row, the sum and the count.\<close>

fun group_of :: "(string \<Rightarrow> jsnum) \<Rightarrow> yield_row list \<Rightarrow> group option" where
  "group_of S [] = None"
| "group_of S (r0 # rs) =
     Some \<lparr>DATE = DATE r0, ALLOTMENT = ALLOTMENT r0, PASTURE = PASTURE r0, KA = KA r0,
           sumN = sum_list (map (yield_value S) (r0 # rs)), count = length (r0 # rs)\<rparr>"

subsection \<open>Production rows\<close>

text \<open>
  The production row that the specification describes for a group with a fitted slope:
  the estimate is slope times average yield value times 55.7612, and the average is
  rounded to 3 decimals, the slope to 4 and the estimate to 2 for the output.
\<close>

definition expected_row :: "group \<Rightarrow> rat \<Rightarrow> production_row" where
  "expected_row g slope =
     (let avg = sumN g / of_nat (count g)
      in \<lparr>DATE = DATE g, ALLOTMENT = ALLOTMENT g, PASTURE = PASTURE g, KA = KA g,
          avg_nValue = Num (Fin (round_scaled avg 3)),
          slope_g_per_bag = Num (Fin (round_scaled slope 4)),
          Production = Num (Fin (round_scaled (slope * avg * (557612 / 10000)) 2))\<rparr>)"

subsection \<open>Example data\<close>

text \<open>
  The calibration rows of the specification's example for a unit \<open>U\<close>, and a yield
  collection with two observations of \<open>U\<close> (average 2) and one of a unit \<open>V\<close> that has
  no calibration.
\<close>

definition example_calibration :: "calibration_row list" where
  "example_calibration =
     [\<lparr>cal_KA = Some ''U'', cal_BAG = Num (Fin 1), cal_NET_WT = Num (Fin 10)\<rparr>,
      \<lparr>cal_KA = Some ''U'', cal_BAG = Num (Fin 3), cal_NET_WT = Num (Fin 30)\<rparr>,
      \<lparr>cal_KA = Some ''U'', cal_BAG = Num (Fin 5), cal_NET_WT = Num (Fin 50)\<rparr>]"

definition example_row :: "string \<Rightarrow> jsval \<Rightarrow> yield_row" where
  "example_row ka n =
     \<lparr>DATE = ''2025-09-30'', ALLOTMENT = ''Turkey Creek'', PASTURE = ''Turkey Creek'', KA = ka,
      nValue = n\<rparr>"

definition example_yield :: "yield_row list" where
  "example_yield =
     [example_row ''U'' (Num (Fin 1)), example_row ''V'' (Num (Fin 4)), example_row ''U'' (Num (Fin 3))]"

subsection \<open>Fitted slopes\<close>

text \<open>
  The calibration rows of a unit code that enter the fit have a finite bag number and a
  finite net weight. The fitted slope is the sum of bag number times net weight over the
  sum of the squared bag numbers, and is defined only when the latter is positive.
\<close>

definition bag_value :: "(string \<Rightarrow> jsnum) \<Rightarrow> calibration_row \<Rightarrow> rat" where
  "bag_value S row = (case asNumber S (cal_BAG row) of Fin x \<Rightarrow> x | _ \<Rightarrow> 0)"

definition net_value :: "(string \<Rightarrow> jsnum) \<Rightarrow> calibration_row \<Rightarrow> rat" where
  "net_value S row = (case asNumber S (cal_NET_WT row) of Fin y \<Rightarrow> y | _ \<Rightarrow> 0)"

definition fit_row :: "(string \<Rightarrow> jsnum) \<Rightarrow> string \<Rightarrow> calibration_row \<Rightarrow> bool" where
  "fit_row S k row =
     (cal_KA row = Some k \<and> isFinite (asNumber S (cal_BAG row)) \<and> isFinite (asNumber S (cal_NET_WT row)))"

definition fit_rows :: "(string \<Rightarrow> jsnum) \<Rightarrow> calibration_row list \<Rightarrow> string \<Rightarrow> calibration_row list" where
  "fit_rows S prodRows k = filter (fit_row S k) prodRows"

definition sum_xy :: "(string \<Rightarrow> jsnum) \<Rightarrow> calibration_row list \<Rightarrow> rat" where
  "sum_xy S ms = sum_list (map (\<lambda>row. bag_value S row * net_value S row) ms)"

definition sum_x2 :: "(string \<Rightarrow> jsnum) \<Rightarrow> calibration_row list \<Rightarrow> rat" where
  "sum_x2 S ms = sum_list (map (\<lambda>row. bag_value S row * bag_value S row) ms)"

definition fitted_slope :: "(string \<Rightarrow> jsnum) \<Rightarrow> calibration_row list \<Rightarrow> string \<Rightarrow> rat option" where
  "fitted_slope S prodRows k =
     (let ms = fit_rows S prodRows k
      in if sum_x2 S ms > 0 then Some (sum_xy S ms / sum_x2 S ms) else None)"

text \<open>The statistics that the fit keeps for the rows of one unit code.\<close>

definition stats_of :: "(string \<Rightarrow> jsnum) \<Rightarrow> calibration_row list \<Rightarrow> stats option" where
  "stats_of S ms =
     (if ms = [] then None
      else Some \<lparr>sumXY = sum_xy S ms, sumX2 = sum_x2 S ms, stat_count = length ms\<rparr>)"

text \<open>A unit code that a table kept in a plain object can hold.\<close>

definition plain_key :: "string \<Rightarrow> bool" where
  "plain_key k = (k \<noteq> '''' \<and> k \<notin> set object_prototype_names)"


section \<open>Properties of the Field Normalizer\<close>

subsection \<open>Dates\<close>

text \<open>
  C9. \<open>normalizeDate\<close> is idempotent: its result is a string, and a string is returned
  as it is. So applying it to its own result changes nothing, for every input, and a
  canonical \<^verbatim>\<open>YYYY-MM-DD\<close> string passes through unchanged like every other string.
\<close>

theorem normalizeDate_idempotent:
  "normalizeDate (Str (normalizeDate x)) = normalizeDate x \<and> normalizeDate (Str s) = s"
  by (simp add: normalizeDate_def)

lemma normalizeDate_example:
  "normalizeDate (DateObj (Some \<lparr>timeValue = 1759190400000, fullYear = 2025, month = 8, dayOfMonth = 30\<rparr>))
     = ''2025-09-30''"
  by (simp add: normalizeDate_def show_int_def padStart2_def digit_char_def)

subsection \<open>Unit codes\<close>

lemma extractKA_examples:
  "extractKA (Some ''03-01-01-00112-001-C3'') = ''C3'' \<and> extractKA (Some ''00112-001'') = ''''
     \<and> extractKA None = ''''"
  by (simp add: extractKA_def is_alpha_def is_line_terminator_def code_unit_def)

lemma match_alpha_rest_one_line:
  "list_all (\<lambda>d. \<not> is_line_terminator d) s \<Longrightarrow>
   match_alpha_rest s =
     (case dropWhile (\<lambda>c. \<not> is_alpha c) s of [] \<Rightarrow> None | c # cs \<Rightarrow> Some (c # cs))"
  by (induction s) auto

text \<open>
  On an identifier without a line terminator the result is the text from the first
  letter on.
\<close>

lemma extractKA_one_line:
  assumes "list_all (\<lambda>d. \<not> is_line_terminator d) s"
  shows "extractKA (Some s) = dropWhile (\<lambda>c. \<not> is_alpha c) s"
proof (cases "dropWhile (\<lambda>c. \<not> is_alpha c) s")
  case Nil
  with assms show ?thesis
    by (simp add: extractKA_def match_alpha_rest_one_line del: dropWhile_eq_Nil_conv)
next
  case (Cons c cs)
  with assms show ?thesis
    by (auto simp: extractKA_def match_alpha_rest_one_line)
qed

text \<open>
  C8. The claim is that \<open>extractKA\<close> returns the text from the first letter to the end
  of the identifier, for every identifier. The pattern \<^verbatim>\<open>/[A-Za-z].*$/\<close> cannot cross
  a line terminator: for an identifier that ends in a line feed the letters \<open>C3\<close> are
  found by no match, and the result is the empty string instead of the text from
  \<open>C\<close> on.
\<close>

theorem extractKA_trailing_line_feed:
  "extractKA (Some [CHR ''0'', CHR ''1'', CHR ''-'', CHR ''C'', CHR ''3'', CHR 0x0A]) = ''''"
  by (simp add: extractKA_def is_alpha_def is_line_terminator_def code_unit_def)


subsection \<open>Hierarchy paths\<close>

lemma matches_ws_word_iff:
  "matches_ws_word w u \<longleftrightarrow>
     (\<exists>sp v. u = sp @ v \<and> sp \<noteq> [] \<and> (\<forall>c\<in>set sp. is_space c) \<and> same_word v w)"
proof (induction u)
  case Nil
  then show ?case by simp
next
  case (Cons c cs)
  show ?case
  proof
    assume m: "matches_ws_word w (c # cs)"
    then have sc: "is_space c" by simp
    from m consider "same_word cs w" | "matches_ws_word w cs" by (auto simp: same_word_def)
    then show "\<exists>sp v. c # cs = sp @ v \<and> sp \<noteq> [] \<and> (\<forall>c\<in>set sp. is_space c) \<and> same_word v w"
    proof cases
      case 1
      with sc have "c # cs = [c] @ cs \<and> [c] \<noteq> [] \<and> (\<forall>x\<in>set [c]. is_space x) \<and> same_word cs w" by simp
      then show ?thesis by blast
    next
      case 2
      with Cons.IH obtain sp v where "cs = sp @ v" "(\<forall>c\<in>set sp. is_space c)" "same_word v w" by blast
      with sc have "c # cs = (c # sp) @ v \<and> c # sp \<noteq> [] \<and> (\<forall>x\<in>set (c # sp). is_space x) \<and> same_word v w" by simp
      then show ?thesis by blast
    qed
  next
    assume "\<exists>sp v. c # cs = sp @ v \<and> sp \<noteq> [] \<and> (\<forall>c\<in>set sp. is_space c) \<and> same_word v w"
    then obtain sp v where d: "c # cs = sp @ v" "sp \<noteq> []" "\<forall>c\<in>set sp. is_space c" "same_word v w" by blast
    then obtain sp' where sp: "sp = c # sp'" by (cases sp) auto
    with d have sc: "is_space c" and cs: "cs = sp' @ v" by auto
    show "matches_ws_word w (c # cs)"
    proof (cases sp')
      case Nil
      with cs d sc show ?thesis by (simp add: same_word_def)
    next
      case (Cons a as)
      with cs d sp have "\<exists>sp v. cs = sp @ v \<and> sp \<noteq> [] \<and> (\<forall>c\<in>set sp. is_space c) \<and> same_word v w"
        by (intro exI[of _ sp'] exI[of _ v]) auto
      with Cons.IH sc show ?thesis by simp
    qed
  qed
qed

lemma replace_trailing_append:
  "(\<And>i. i < length xs \<Longrightarrow> \<not> matches_ws_word w (drop i (xs @ ys))) \<Longrightarrow>
   replace_trailing w (xs @ ys) = xs @ replace_trailing w ys"
proof (induction xs)
  case Nil
  then show ?case by simp
next
  case (Cons x xs)
  from Cons.prems[of 0] have n0: "\<not> matches_ws_word w (x # xs @ ys)" by simp
  have "\<And>i. i < length xs \<Longrightarrow> \<not> matches_ws_word w (drop i (xs @ ys))"
    using Cons.prems[of "Suc i" for i] by simp
  with Cons.IH have "replace_trailing w (xs @ ys) = xs @ replace_trailing w ys" by blast
  with n0 show ?case by simp
qed

lemma replace_trailing_match: "matches_ws_word w u \<Longrightarrow> replace_trailing w u = []"
  by (cases u) auto


lemma space_canonicalize: "is_space c \<Longrightarrow> canonicalize c = c"
  by (auto simp: is_space_def canonicalize_def)

lemma same_word_length: "same_word v w \<Longrightarrow> length v = length w"
  unfolding same_word_def by (metis length_map)

lemma same_word_no_space:
  assumes "same_word v w" and "\<forall>x\<in>set w. \<not> is_space (canonicalize x)"
  shows "\<forall>c\<in>set v. \<not> is_space c"
proof (intro ballI notI)
  fix c assume c: "c \<in> set v" and sp: "is_space c"
  from c have "canonicalize c \<in> set (map canonicalize v)" by simp
  with assms(1) have "canonicalize c \<in> set (map canonicalize w)" by (simp add: same_word_def)
  then obtain x where "x \<in> set w" "canonicalize x = canonicalize c" by auto
  with sp assms(2) show False by (metis space_canonicalize)
qed

lemma last_word_no_space: "\<forall>c\<in>set (last_word t). \<not> is_space c"
  by (auto simp: last_word_def dest: set_takeWhileD)

lemma last_word_decomp:
  "\<exists>sp. t = without_last_word t @ sp @ last_word t \<and> (\<forall>c\<in>set sp. is_space c)
        \<and> (length (last_word t) < length t \<longrightarrow> sp \<noteq> [])"
proof -
  define X where "X = dropWhile (\<lambda>c. \<not> is_space c) (rev t)"
  define sp where "sp = rev (takeWhile is_space X)"
  have r: "rev t = takeWhile (\<lambda>c. \<not> is_space c) (rev t) @ (takeWhile is_space X @ dropWhile is_space X)"
    by (simp add: X_def)
  have "t = rev (dropWhile is_space X) @ rev (takeWhile is_space X) @ rev (takeWhile (\<lambda>c. \<not> is_space c) (rev t))"
    using arg_cong[OF r, of rev] by (simp only: rev_rev_ident rev_append append_assoc)
  then have t: "t = without_last_word t @ sp @ last_word t"
    by (simp only: without_last_word_def last_word_def sp_def X_def)
  have s: "\<forall>c\<in>set sp. is_space c" by (auto simp: sp_def dest: set_takeWhileD)
  have "sp \<noteq> []" if "length (last_word t) < length t"
  proof -
    have "X \<noteq> []"
    proof
      assume "X = []"
      then have "\<forall>x\<in>set (rev t). \<not> is_space x" by (simp add: X_def)
      then have "takeWhile (\<lambda>c. \<not> is_space c) (rev t) = rev t" by (simp add: takeWhile_eq_all_conv)
      with that show False by (simp add: last_word_def)
    qed
    then have "is_space (hd X)" using hd_dropWhile[of "\<lambda>c. \<not> is_space c" "rev t"] by (simp add: X_def)
    with \<open>X \<noteq> []\<close> show ?thesis by (cases X) (auto simp: sp_def)
  qed
  with t s show ?thesis by blast
qed

lemma without_last_word_end:
  "without_last_word t = [] \<or> \<not> is_space (last (without_last_word t))"
proof -
  define d where "d = dropWhile is_space (dropWhile (\<lambda>c. \<not> is_space c) (rev t))"
  have w: "without_last_word t = rev d" by (simp add: without_last_word_def d_def)
  show ?thesis
  proof (cases "d = []")
    case True
    with w show ?thesis by simp
  next
    case False
    then have "\<not> is_space (hd d)" unfolding d_def by (rule hd_dropWhile)
    moreover have "last (rev d) = hd d" using False by (simp add: last_rev)
    ultimately show ?thesis using w by simp
  qed
qed

lemma last_word_after_space:
  assumes "is_space s" and "\<forall>c\<in>set v. \<not> is_space c"
  shows "last_word (pre @ s # v) = v"
proof -
  have "takeWhile (\<lambda>c. \<not> is_space c) (rev v @ s # rev pre) = rev v"
    using assms by (simp add: takeWhile_tail)
  then show ?thesis by (simp add: last_word_def)
qed


lemma replace_trailing_spaced:
  assumes word: "\<forall>x\<in>set w. \<not> is_space (canonicalize x)"
  shows "replace_trailing w t = strip_spaced_word w t"
proof (cases "same_word (last_word t) w \<and> length (last_word t) < length t")
  case True
  let ?core = "without_last_word t" and ?lw = "last_word t"
  from last_word_decomp[of t] True obtain sp where
    d: "t = ?core @ sp @ ?lw" "\<forall>c\<in>set sp. is_space c" "sp \<noteq> []" by blast
  have m: "matches_ws_word w (sp @ ?lw)"
    using d(2,3) True unfolding matches_ws_word_iff by blast
  have nm: "\<not> matches_ws_word w (drop i (?core @ (sp @ ?lw)))" if i: "i < length ?core" for i
  proof
    assume "matches_ws_word w (drop i (?core @ (sp @ ?lw)))"
    then obtain sp' v where e: "drop i (?core @ (sp @ ?lw)) = sp' @ v"
        "\<forall>c\<in>set sp'. is_space c" "same_word v w"
      unfolding matches_ws_word_iff by blast
    have len: "length ?lw = length v" using e(3) True by (simp add: same_word_length)
    from i e(1) have "(drop i ?core @ sp) @ ?lw = sp' @ v" by simp
    with len have sp': "sp' = drop i ?core @ sp" by (metis append_eq_append_conv)
    from i have ne: "drop i ?core \<noteq> []" by simp
    then have "last ?core \<in> set (drop i ?core)"
      using i by (metis last_drop last_in_set)
    moreover from i without_last_word_end[of t] have "\<not> is_space (last ?core)" by auto
    ultimately show False using e(2) sp' by auto
  qed
  have "replace_trailing w (?core @ (sp @ ?lw)) = ?core @ replace_trailing w (sp @ ?lw)"
    by (rule replace_trailing_append) (use nm in blast)
  with m d(1) have "replace_trailing w t = ?core"
    by (simp add: replace_trailing_match)
  with True show ?thesis by (simp add: strip_spaced_word_def)
next
  case False
  have nm: "\<not> matches_ws_word w (drop i (t @ []))" if i: "i < length t" for i
  proof
    assume "matches_ws_word w (drop i (t @ []))"
    then obtain sp' v where e: "drop i t = sp' @ v" "sp' \<noteq> []"
        "\<forall>c\<in>set sp'. is_space c" "same_word v w"
      unfolding matches_ws_word_iff by auto
    have nv: "\<forall>c\<in>set v. \<not> is_space c" using same_word_no_space[OF e(4) word] .
    have "t = take i t @ drop i t" by simp
    also have "drop i t = butlast sp' @ last sp' # v" using e(1,2) by simp
    finally have t: "t = (take i t @ butlast sp') @ last sp' # v" by simp
    have "is_space (last sp')" using e(2,3) by simp
    then have "last_word ((take i t @ butlast sp') @ last sp' # v) = v"
      using nv by (rule last_word_after_space)
    with t have lw: "last_word t = v" by simp
    have "length v < length t"
      using arg_cong[OF t, of length] by simp
    with lw e(4) False show False by simp
  qed
  have "replace_trailing w (t @ []) = t @ replace_trailing w []"
    by (rule replace_trailing_append) (use nm in blast)
  with False show ?thesis by (auto simp: strip_spaced_word_def)
qed


lemma split_unfold:
  "split c s = takeWhile (\<lambda>x. x \<noteq> c) s #
     (case dropWhile (\<lambda>x. x \<noteq> c) s of [] \<Rightarrow> [] | x # r \<Rightarrow> split c r)"
  by (induction s) (auto split: list.splits)

lemma part_trimmed_0: "part_trimmed (split CHR ''>'' s) 0 = trim (segment0 s)"
  by (subst split_unfold) (simp add: part_trimmed_def segment0_def trim_def)

lemma part_trimmed_1: "part_trimmed (split CHR ''>'' s) (Suc 0) = trim (segment1 s)"
proof (cases "dropWhile (\<lambda>x. x \<noteq> CHR ''>'') s")
  case Nil
  then show ?thesis
    by (subst split_unfold) (simp add: part_trimmed_def segment1_def trim_def del: dropWhile_eq_Nil_conv)
next
  case (Cons x r)
  have "split CHR ''>'' s ! Suc 0 = takeWhile (\<lambda>x. x \<noteq> CHR ''>'') r"
    by (subst split_unfold, simp add: Cons, subst split_unfold, simp)
  moreover have "Suc 0 < length (split CHR ''>'' s)"
    by (subst split_unfold, simp add: Cons, subst split_unfold, simp)
  ultimately show ?thesis
    using Cons by (simp add: part_trimmed_def segment1_def trim_def)
qed

lemma trimmed_trim: "trimmed (trim s)"
proof -
  define u where "u = dropWhile is_space s"
  define r where "r = dropWhile is_space (rev u)"
  have tr: "trim s = rev r" by (simp add: trim_def r_def u_def)
  show ?thesis
  proof (cases "r = []")
    case True
    with tr show ?thesis by (simp add: trimmed_def)
  next
    case False
    then have hr: "\<not> is_space (hd r)" using hd_dropWhile[of is_space "rev u"] by (simp add: r_def)
    from False have une: "u \<noteq> []" by (auto simp: r_def)
    then have hu: "\<not> is_space (hd u)" using hd_dropWhile[of is_space s] by (simp add: u_def)
    define tw where "tw = takeWhile is_space (rev u)"
    have e: "rev u = tw @ r" by (simp add: r_def tw_def)
    have "last (rev u) = last r" using False by (simp add: e)
    then have "last r = hd u" using une by (simp add: last_rev)
    with hr hu False tr show ?thesis by (simp add: trimmed_def hd_rev last_rev)
  qed
qed

lemma trim_trimmed: "trimmed t \<Longrightarrow> trim t = t"
proof (cases t)
  case Nil
  then show ?thesis by (simp add: trim_def)
next
  case (Cons a as)
  assume "trimmed t"
  with Cons have h: "\<not> is_space a" and l: "\<not> is_space (last t)" by (auto simp: trimmed_def)
  from h Cons have "dropWhile is_space t = t" by simp
  moreover have "dropWhile is_space (rev t) = rev t"
  proof (cases "rev t")
    case Nil
    then show ?thesis by simp
  next
    case (Cons b bs)
    then have "b = hd (rev t)" by simp
    also have "\<dots> = last t" using \<open>t = a # as\<close> by (simp add: hd_rev)
    finally have "\<not> is_space b" using l by simp
    then show ?thesis unfolding Cons by simp
  qed
  ultimately show ?thesis by (simp add: trim_def)
qed


lemma trimmed_strip_spaced_word:
  assumes "trimmed t"
  shows "trimmed (strip_spaced_word w t)"
proof (cases "same_word (last_word t) w \<and> length (last_word t) < length t")
  case False
  with assms show ?thesis by (auto simp: strip_spaced_word_def)
next
  case True
  let ?core = "without_last_word t"
  from last_word_decomp[of t] obtain sp where d: "t = ?core @ sp @ last_word t" by blast
  have "trimmed ?core"
  proof (cases "?core = []")
    case True
    then show ?thesis by (simp add: trimmed_def)
  next
    case False
    then have "hd t = hd ?core" using arg_cong[OF d, of hd] by simp
    moreover from False d have "t \<noteq> []" by auto
    ultimately have "\<not> is_space (hd ?core)" using assms by (simp add: trimmed_def)
    with without_last_word_end[of t] False show ?thesis by (simp add: trimmed_def)
  qed
  with True show ?thesis by (simp add: strip_spaced_word_def)
qed

lemma word_Allotment: "\<forall>x\<in>set ''Allotment''. \<not> is_space (canonicalize x)"
  by (simp add: is_space_def canonicalize_def code_unit_def)

lemma word_Pasture: "\<forall>x\<in>set ''Pasture''. \<not> is_space (canonicalize x)"
  by (simp add: is_space_def canonicalize_def code_unit_def)

lemma strip_in_code:
  assumes "\<forall>x\<in>set w. \<not> is_space (canonicalize x)"
  shows "trim (replace_trailing w (trim u)) = strip_spaced_word w (trim u)"
  using assms by (simp add: replace_trailing_spaced trim_trimmed trimmed_strip_spaced_word trimmed_trim)


text \<open>
  C7. The claim is that \<open>parseAncestry\<close> splits at the separator into at most two
  segments, trims each, strips a trailing word "Allotment" from the first and a trailing
  word "Pasture" from the second, whatever the case of their letters, and gives empty
  strings for missing segments and for an empty or absent input. The code strips the word
  only where white space stands before it (the pattern starts with \<^verbatim>\<open>\s+\<close>): a
  segment that is the word alone is kept. With that amendment the claim holds for every
  input.
\<close>

theorem parseAncestry_spaced: "parseAncestry x = parseHierarchy_spaced x"
proof (cases x)
  case None
  then show ?thesis by (simp add: parseAncestry_def parseHierarchy_spaced_def)
next
  case (Some s)
  show ?thesis
  proof (cases "s = []")
    case True
    with Some show ?thesis
      by (simp add: parseAncestry_def parseHierarchy_spaced_def segment0_def segment1_def trim_def
          strip_spaced_word_def last_word_def same_word_def)
  next
    case False
    have a: "trim (replace_trailing ''Allotment'' (part_trimmed (split CHR ''>'' s) 0))
         = strip_spaced_word ''Allotment'' (trim (segment0 s))"
      by (simp only: part_trimmed_0 strip_in_code[OF word_Allotment])
    have b: "trim (replace_trailing ''Pasture'' (part_trimmed (split CHR ''>'' s) 1))
         = strip_spaced_word ''Pasture'' (trim (segment1 s))"
      by (simp only: One_nat_def part_trimmed_1 strip_in_code[OF word_Pasture])
    have "parseAncestry (Some s) = \<lparr>allotment = trim (replace_trailing ''Allotment'' (part_trimmed (split CHR ''>'' s) 0)),
                pasture = trim (replace_trailing ''Pasture'' (part_trimmed (split CHR ''>'' s) 1))\<rparr>"
      using False by (simp add: parseAncestry_def Let_def)
    with a b Some show ?thesis
      by (simp only: parseHierarchy_spaced_def option.case)
  qed
qed

theorem parseAncestry_spaced_witness:
  "parseAncestry (Some ''Turkey Creek Allotment > Turkey Creek Pasture'')
     = \<lparr>allotment = ''Turkey Creek'', pasture = ''Turkey Creek''\<rparr>"
  unfolding parseAncestry_spaced by code_simp

theorem parseAncestry_lone_word:
  "parseAncestry (Some ''Allotment'') = \<lparr>allotment = ''Allotment'', pasture = ''''\<rparr>
   \<and> parseHierarchy_spec (Some ''Allotment'') = \<lparr>allotment = '''', pasture = ''''\<rparr>"
  by code_simp

section \<open>Properties of the rounding\<close>







section \<open>The string comparison of the examples\<close>







section \<open>Properties of the sorting\<close>

lemma set_insert_sorted: "set (insert_sorted cmp x xs) = insert x (set xs)"
  by (induction xs) auto

lemma set_sort_js: "set (sort_js cmp xs) = set xs"
  by (induction xs) (auto simp: sort_js_def set_insert_sorted)

lemma length_insert_sorted: "length (insert_sorted cmp x xs) = Suc (length xs)"
  by (induction xs) auto

lemma length_sort_js: "length (sort_js cmp xs) = length xs"
  by (induction xs) (auto simp: sort_js_def length_insert_sorted)













section \<open>The joined key\<close>

lemma append_separator_inject:
  assumes "c \<notin> set xs" and "c \<notin> set ys" and "xs @ c # r = ys @ c # r'"
  shows "xs = ys \<and> r = r'"
proof -
  have "takeWhile (\<lambda>x. x \<noteq> c) (xs @ c # r) = xs" "takeWhile (\<lambda>x. x \<noteq> c) (ys @ c # r') = ys"
    using assms(1,2) by (auto simp: takeWhile_tail)
  with assms(3) have "xs = ys" by simp
  with assms(3) show ?thesis by simp
qed

text \<open>
  Keys whose date, allotment and pasture are free of the character \<open>|\<close> are joined
  without loss.
\<close>

lemma group_key_inject:
  assumes "CHR ''|'' \<notin> set (DATE a) \<union> set (ALLOTMENT a) \<union> set (PASTURE a)"
    and "CHR ''|'' \<notin> set (DATE b) \<union> set (ALLOTMENT b) \<union> set (PASTURE b)"
    and "group_key a = group_key b"
  shows "DATE a = DATE b \<and> ALLOTMENT a = ALLOTMENT b \<and> PASTURE a = PASTURE b \<and> KA a = KA b"
proof -
  from assms(3) have "DATE a @ CHR ''|'' # (''|'' @ ALLOTMENT a @ ''||'' @ PASTURE a @ ''||'' @ KA a)
      = DATE b @ CHR ''|'' # (''|'' @ ALLOTMENT b @ ''||'' @ PASTURE b @ ''||'' @ KA b)"
    by (simp add: group_key_def)
  with assms(1,2) have d: "DATE a = DATE b"
    and 1: "ALLOTMENT a @ CHR ''|'' # (''|'' @ PASTURE a @ ''||'' @ KA a)
      = ALLOTMENT b @ CHR ''|'' # (''|'' @ PASTURE b @ ''||'' @ KA b)"
    using append_separator_inject[of "CHR ''|''" "DATE a" "DATE b"] by auto
  from 1 assms(1,2) have al: "ALLOTMENT a = ALLOTMENT b"
    and 2: "PASTURE a @ CHR ''|'' # (''|'' @ KA a) = PASTURE b @ CHR ''|'' # (''|'' @ KA b)"
    using append_separator_inject[of "CHR ''|''" "ALLOTMENT a" "ALLOTMENT b"] by auto
  from 2 assms(1,2) have "PASTURE a = PASTURE b" "KA a = KA b"
    using append_separator_inject[of "CHR ''|''" "PASTURE a" "PASTURE b"] by auto
  with d al show ?thesis by simp
qed

section \<open>Repeated rows in the Template Builder\<close>

lemma template_loop_append:
  "template_loop (xs @ ys) seen acc =
     template_loop ys (seen \<union> group_key ` {r \<in> set xs. DATE r \<noteq> '''' \<and> KA r \<noteq> ''''})
       (template_loop xs seen acc)"
proof (induction xs arbitrary: seen acc)
  case Nil
  then show ?case by simp
next
  case (Cons x xs)
  show ?case
  proof (cases "DATE x = '''' \<or> KA x = ''''")
    case True
    have "{r \<in> set (x # xs). DATE r \<noteq> '''' \<and> KA r \<noteq> ''''} = {r \<in> set xs. DATE r \<noteq> '''' \<and> KA r \<noteq> ''''}"
      using True by auto
    with True Cons[of seen acc] show ?thesis by simp
  next
    case False
    have s: "{r \<in> set (x # xs). DATE r \<noteq> '''' \<and> KA r \<noteq> ''''}
        = insert x {r \<in> set xs. DATE r \<noteq> '''' \<and> KA r \<noteq> ''''}"
      using False by auto
    show ?thesis
    proof (cases "group_key x \<in> seen")
      case True
      then have "seen \<union> group_key ` insert x {r \<in> set xs. DATE r \<noteq> '''' \<and> KA r \<noteq> ''''}
          = seen \<union> group_key ` {r \<in> set xs. DATE r \<noteq> '''' \<and> KA r \<noteq> ''''}"
        by auto
      with False True Cons[of seen acc] show ?thesis unfolding s by simp
    next
      case unseen: False
      have "insert (group_key x) seen \<union> group_key ` {r \<in> set xs. DATE r \<noteq> '''' \<and> KA r \<noteq> ''''}
          = seen \<union> group_key ` insert x {r \<in> set xs. DATE r \<noteq> '''' \<and> KA r \<noteq> ''''}"
        by auto
      with False unseen Cons[of "insert (group_key x) seen" "acc @ map (blank_row x) BAG_NUMBERS"]
      show ?thesis unfolding s by simp
    qed
  qed
qed

lemma template_loop_seen_row:
  "DATE r = '''' \<or> KA r = '''' \<or> group_key r \<in> seen \<Longrightarrow>
   template_loop (r # zs) seen acc = template_loop zs seen acc"
  by auto

text \<open>
  A row that is uploaded a second time changes nothing: the Template Builder returns the
  same rows as for the collection without the repetition.
\<close>

lemma template_duplicate_row:
  "makeProductionTemplateRows lc (xs @ r # ys @ r # zs) = makeProductionTemplateRows lc (xs @ r # ys @ zs)"
proof -
  define seen where "seen = group_key ` {q \<in> set (xs @ r # ys). DATE q \<noteq> '''' \<and> KA q \<noteq> ''''}"
  define acc where "acc = template_loop (xs @ r # ys) {} []"
  have "template_loop ((xs @ r # ys) @ r # zs) {} [] = template_loop (r # zs) seen acc"
    unfolding template_loop_append seen_def acc_def by simp
  also have "\<dots> = template_loop zs seen acc"
    by (rule template_loop_seen_row) (auto simp: seen_def)
  also have "\<dots> = template_loop ((xs @ r # ys) @ zs) {} []"
    unfolding template_loop_append seen_def acc_def by simp
  finally show ?thesis by (simp add: makeProductionTemplateRows_def)
qed

section \<open>Properties of the Template Builder and of the order of the outputs\<close>



lemma template_sorted_example:
  "map ALLOTMENT (makeProductionTemplateRows compare_units
          [\<lparr>DATE = ''2025-09-30'', ALLOTMENT = ''Turkey Creek'', PASTURE = ''North'', KA = ''C3'', nValue = Num (Fin 1)\<rparr>,
           \<lparr>DATE = ''2025-09-30'', ALLOTMENT = ''Bear Flat'', PASTURE = ''South'', KA = ''C1'', nValue = Num (Fin 3)\<rparr>])
   = [''Bear Flat'', ''Bear Flat'', ''Bear Flat'', ''Turkey Creek'', ''Turkey Creek'', ''Turkey Creek'']"
  by code_simp

text \<open>
  C5. The claim is that every distinct key (date, allotment, pasture, unit code) of the
  rows that have a date and a unit code yields exactly one template row per bag number.
  The set \<open>seen\<close> holds the four fields joined by \<open>||\<close>, and two different keys can
  give the same joined text: the second row below has a key of its own and gets no
  template row.
\<close>

theorem template_key_collision:
  "makeProductionTemplateRows compare_units
     [\<lparr>DATE = ''2025-09-30'', ALLOTMENT = ''A'', PASTURE = ''B||C'', KA = ''K1'', nValue = Num (Fin 1)\<rparr>,
      \<lparr>DATE = ''2025-09-30'', ALLOTMENT = ''A||B'', PASTURE = ''C'', KA = ''K1'', nValue = Num (Fin 1)\<rparr>]
   = [\<lparr>DATE = ''2025-09-30'', ALLOTMENT = ''A'', PASTURE = ''B||C'', KA = ''K1'',
       BAG = 1, GW = '''', Dry_WT = '''', minus_BAG = '''', NET_WT = ''''\<rparr>,
      \<lparr>DATE = ''2025-09-30'', ALLOTMENT = ''A'', PASTURE = ''B||C'', KA = ''K1'',
       BAG = 3, GW = '''', Dry_WT = '''', minus_BAG = '''', NET_WT = ''''\<rparr>,
      \<lparr>DATE = ''2025-09-30'', ALLOTMENT = ''A'', PASTURE = ''B||C'', KA = ''K1'',
       BAG = 5, GW = '''', Dry_WT = '''', minus_BAG = '''', NET_WT = ''''\<rparr>]"
  by code_simp

section \<open>Properties of the tables\<close>

lemma map_of_snoc:
  "map_of (al @ [(k, v)]) k' = (case map_of al k' of Some x \<Rightarrow> Some x | None \<Rightarrow> if k' = k then Some v else None)"
  by (induction al) auto

lemma update_snoc:
  "map_of al k = None \<Longrightarrow> AList.update k v (al @ [(k, w)]) = al @ [(k, v)]"
  by (induction al) (auto split: if_splits)

lemma distinct_snoc:
  "distinct (map fst al) \<Longrightarrow> map_of al k = None \<Longrightarrow> distinct (map fst (al @ [(k, v)]))"
  by (auto simp: map_of_eq_None_iff)

lemma bar_in_group_key: "CHR ''|'' \<in> set (group_key r)"
  by (simp add: group_key_def)

lemma group_key_not_prototype: "group_key r \<notin> set object_prototype_names"
proof
  assume "group_key r \<in> set object_prototype_names"
  moreover have "\<forall>n\<in>set object_prototype_names. CHR ''|'' \<notin> set n"
    by (simp add: object_prototype_names_def)
  ultimately show False using bar_in_group_key[of r] by blast
qed

lemma get_property_group_key:
  "get_property groups (group_key r) =
     (case map_of groups (group_key r) of Some g \<Rightarrow> Own g | None \<Rightarrow> Missing)"
  by (simp add: get_property_def group_key_not_prototype)

section \<open>Properties of the grouping\<close>

lemma asNumber_cases: "asNumber S v = NaN \<or> (\<exists>n. asNumber S v = Fin n)"
  by (cases "Number S v") (simp_all add: asNumber_def)

lemma group_step_skip: "\<not> eligible S x \<Longrightarrow> group_step S groups x = groups"
  using asNumber_cases[of S "nValue x"]
  by (auto simp: group_step_def eligible_def)

lemma group_step_take:
  assumes "eligible S x"
  shows "group_step S groups x =
     (case map_of groups (group_key x) of
        None \<Rightarrow> groups @ [(group_key x, \<lparr>DATE = DATE x, ALLOTMENT = ALLOTMENT x, PASTURE = PASTURE x,
                                         KA = KA x, sumN = yield_value S x, count = 1\<rparr>)]
      | Some g \<Rightarrow> AList.update (group_key x)
                   (g\<lparr>sumN := sumN g + yield_value S x, count := count g + 1\<rparr>) groups)"
proof -
  from assms obtain n where n: "asNumber S (nValue x) = Fin n"
    using asNumber_cases[of S "nValue x"] by (auto simp: eligible_def)
  show ?thesis
  proof (cases "map_of groups (group_key x)")
    case None
    have gp: "get_property groups (group_key x) = Missing"
      using None by (simp add: get_property_group_key)
    have g1: "get_property (groups @ [(group_key x, g0)]) (group_key x) = Own g0" for g0
      using None by (simp add: get_property_group_key map_add_def)
    from assms n None show ?thesis
      by (simp add: group_step_def eligible_def yield_value_def Let_def gp g1 update_snoc)
  next
    case (Some g)
    with assms n show ?thesis
      by (simp add: group_step_def eligible_def yield_value_def Let_def get_property_group_key)
  qed
qed


lemma group_rows_snoc: "group_rows S (cy @ [x]) = group_step S (group_rows S cy) x"
  by (simp add: group_rows_def)

lemma members_snoc:
  "members S (cy @ [x]) k = members S cy k @ (if eligible S x \<and> group_key x = k then [x] else [])"
  by (simp add: members_def)

lemma group_of_snoc:
  "group_of S (ms @ [x]) =
     (case group_of S ms of
        None \<Rightarrow> Some \<lparr>DATE = DATE x, ALLOTMENT = ALLOTMENT x, PASTURE = PASTURE x, KA = KA x,
                      sumN = yield_value S x, count = 1\<rparr>
      | Some g \<Rightarrow> Some (g\<lparr>sumN := sumN g + yield_value S x, count := count g + 1\<rparr>))"
  by (cases ms) simp_all

lemma group_step_new:
  assumes "eligible S x" and "map_of groups (group_key x) = None"
  shows "group_step S groups x =
     groups @ [(group_key x, \<lparr>DATE = DATE x, ALLOTMENT = ALLOTMENT x, PASTURE = PASTURE x,
                                 KA = KA x, sumN = yield_value S x, count = 1\<rparr>)]"
  unfolding group_step_take[OF assms(1)] assms(2) by simp

lemma group_step_old:
  assumes "eligible S x" and "map_of groups (group_key x) = Some g"
  shows "group_step S groups x =
     AList.update (group_key x) (g\<lparr>sumN := sumN g + yield_value S x, count := count g + 1\<rparr>) groups"
  unfolding group_step_take[OF assms(1)] assms(2) by simp

lemma distinct_group_step:
  assumes "distinct (map fst groups)"
  shows "distinct (map fst (group_step S groups x))"
proof (cases "eligible S x")
  case False
  with assms show ?thesis by (simp add: group_step_skip)
next
  case True
  show ?thesis
  proof (cases "map_of groups (group_key x)")
    case None
    then have "group_key x \<notin> fst ` set groups" by (simp add: map_of_eq_None_iff)
    with assms show ?thesis unfolding group_step_new[OF True None] by simp
  next
    case (Some g)
    from assms show ?thesis unfolding group_step_old[OF True Some] by (rule distinct_update)
  qed
qed

lemma distinct_group_rows: "distinct (map fst (group_rows S cy))"
  by (induction cy rule: rev_induct) (simp_all add: group_rows_def distinct_group_step)

lemma group_step_lookup:
  assumes "eligible S x"
  shows "map_of (group_step S groups x) k =
     (if k = group_key x
      then (case map_of groups k of
              None \<Rightarrow> Some \<lparr>DATE = DATE x, ALLOTMENT = ALLOTMENT x, PASTURE = PASTURE x, KA = KA x,
                            sumN = yield_value S x, count = 1\<rparr>
            | Some g \<Rightarrow> Some (g\<lparr>sumN := sumN g + yield_value S x, count := count g + 1\<rparr>))
      else map_of groups k)"
proof (cases "map_of groups (group_key x)")
  case None
  show ?thesis
    unfolding group_step_new[OF assms None] map_of_snoc
    using None by (cases "map_of groups k") auto
next
  case (Some g)
  show ?thesis
    unfolding group_step_old[OF assms Some] update_conv'
    using Some by auto
qed

text \<open>
  The table of groups holds, for every joined key, the record of the yield group of
  that key, and nothing for a key without a group.
\<close>

lemma group_rows_lookup: "map_of (group_rows S cy) k = group_of S (members S cy k)"
proof (induction cy rule: rev_induct)
  case Nil
  then show ?case by (simp add: group_rows_def members_def)
next
  case (snoc x cy)
  show ?case
  proof (cases "eligible S x")
    case False
    with snoc show ?thesis by (simp add: group_rows_snoc group_step_skip members_snoc)
  next
    case True
    show ?thesis
    proof (cases "k = group_key x")
      case False
      with True snoc show ?thesis
        by (simp add: group_rows_snoc group_step_lookup members_snoc)
    next
      case k: True
      have "map_of (group_rows S (cy @ [x])) k =
          (case group_of S (members S cy k) of
             None \<Rightarrow> Some \<lparr>DATE = DATE x, ALLOTMENT = ALLOTMENT x, PASTURE = PASTURE x, KA = KA x,
                            sumN = yield_value S x, count = 1\<rparr>
           | Some g \<Rightarrow> Some (g\<lparr>sumN := sumN g + yield_value S x, count := count g + 1\<rparr>))"
        unfolding group_rows_snoc group_step_lookup[OF True] snoc using k by simp
      also have "\<dots> = group_of S (members S cy k @ [x])"
        by (simp only: group_of_snoc)
      also have "members S cy k @ [x] = members S (cy @ [x]) k"
        using True k by (simp add: members_snoc)
      finally show ?thesis .
    qed
  qed
qed

lemma group_rows_entry:
  "(k, g) \<in> set (group_rows S cy) \<longleftrightarrow> group_of S (members S cy k) = Some g"
  using distinct_group_rows[of S cy] by (simp add: group_rows_lookup[symmetric])

lemma group_of_count: "group_of S ms = Some g \<Longrightarrow> count g = length ms \<and> ms \<noteq> []"
  by (cases ms) auto

text \<open>
  C10. A group is created only by a row that has a unit code, a date and a finite yield
  value, and that row is counted at once: every group that reaches the averaging step has
  a count of at least one (it is the number of rows of its yield group), so the division
  \<open>sumN / count\<close> does not divide by zero and the guard \<^verbatim>\<open>if (!g.count) return\<close> is
  never taken.
\<close>

theorem group_count_positive:
  "\<forall>g\<in>set (map snd (group_rows S cyRowsProcessed)). 1 \<le> count g \<and> (of_nat (count g) :: rat) \<noteq> 0"
proof
  fix g assume "g \<in> set (map snd (group_rows S cyRowsProcessed))"
  then obtain k where "(k, g) \<in> set (group_rows S cyRowsProcessed)" by auto
  then have "group_of S (members S cyRowsProcessed k) = Some g" by (simp add: group_rows_entry)
  then have "count g = length (members S cyRowsProcessed k)" "members S cyRowsProcessed k \<noteq> []"
    by (simp_all add: group_of_count)
  then show "1 \<le> count g \<and> (of_nat (count g) :: rat) \<noteq> 0"
    by (cases "members S cyRowsProcessed k") simp_all
qed



theorem group_count_positive_witness:
  "map count (map snd (group_rows text_is_NaN
      [\<lparr>DATE = ''2025-09-30'', ALLOTMENT = ''A'', PASTURE = ''P'', KA = ''U'', nValue = Num (Fin 1)\<rparr>,
       \<lparr>DATE = ''2025-09-30'', ALLOTMENT = ''A'', PASTURE = ''P'', KA = '''', nValue = Num (Fin 7)\<rparr>,
       \<lparr>DATE = ''2025-09-30'', ALLOTMENT = ''A'', PASTURE = ''P'', KA = ''V'', nValue = Num (Fin 5)\<rparr>,
       \<lparr>DATE = ''2025-09-30'', ALLOTMENT = ''A'', PASTURE = ''P'', KA = ''U'', nValue = Num (Fin 3)\<rparr>]))
     = [2, 1]
   \<and> list_all (\<lambda>g. 1 \<le> count g \<and> (of_nat (count g) :: rat) \<noteq> 0) (map snd (group_rows text_is_NaN
      [\<lparr>DATE = ''2025-09-30'', ALLOTMENT = ''A'', PASTURE = ''P'', KA = ''U'', nValue = Num (Fin 1)\<rparr>,
       \<lparr>DATE = ''2025-09-30'', ALLOTMENT = ''A'', PASTURE = ''P'', KA = '''', nValue = Num (Fin 7)\<rparr>,
       \<lparr>DATE = ''2025-09-30'', ALLOTMENT = ''A'', PASTURE = ''P'', KA = ''V'', nValue = Num (Fin 5)\<rparr>,
       \<lparr>DATE = ''2025-09-30'', ALLOTMENT = ''A'', PASTURE = ''P'', KA = ''U'', nValue = Num (Fin 3)\<rparr>]))"
proof (rule conjI)
  show "map count (map snd (group_rows text_is_NaN
      [\<lparr>DATE = ''2025-09-30'', ALLOTMENT = ''A'', PASTURE = ''P'', KA = ''U'', nValue = Num (Fin 1)\<rparr>,
       \<lparr>DATE = ''2025-09-30'', ALLOTMENT = ''A'', PASTURE = ''P'', KA = '''', nValue = Num (Fin 7)\<rparr>,
       \<lparr>DATE = ''2025-09-30'', ALLOTMENT = ''A'', PASTURE = ''P'', KA = ''V'', nValue = Num (Fin 5)\<rparr>,
       \<lparr>DATE = ''2025-09-30'', ALLOTMENT = ''A'', PASTURE = ''P'', KA = ''U'', nValue = Num (Fin 3)\<rparr>]))
     = [2, 1]"
    by code_simp
next
  show "list_all (\<lambda>g. 1 \<le> count g \<and> (of_nat (count g) :: rat) \<noteq> 0) (map snd (group_rows text_is_NaN
      [\<lparr>DATE = ''2025-09-30'', ALLOTMENT = ''A'', PASTURE = ''P'', KA = ''U'', nValue = Num (Fin 1)\<rparr>,
       \<lparr>DATE = ''2025-09-30'', ALLOTMENT = ''A'', PASTURE = ''P'', KA = '''', nValue = Num (Fin 7)\<rparr>,
       \<lparr>DATE = ''2025-09-30'', ALLOTMENT = ''A'', PASTURE = ''P'', KA = ''V'', nValue = Num (Fin 5)\<rparr>,
       \<lparr>DATE = ''2025-09-30'', ALLOTMENT = ''A'', PASTURE = ''P'', KA = ''U'', nValue = Num (Fin 3)\<rparr>]))"
    unfolding list_all_iff by (rule group_count_positive)
qed

section \<open>Properties of the Production Aggregator\<close>

lemma round_js_finite: "round_js S (Num (Fin x)) d = Num (Fin (round_scaled x d))"
  by (simp add: round_js_def asNumber_def Number_def)

lemma emit_step_zero: "count g = 0 \<Longrightarrow> emit_step S slopeTable acc g = acc"
  by (simp add: emit_step_def)

lemma emit_step_own:
  "count g \<noteq> 0 \<Longrightarrow> get_property slopeTable (KA g) = Own slope \<Longrightarrow>
   emit_step S slopeTable acc g = (fst acc @ [expected_row g slope], snd acc)"
  by (simp add: emit_step_def Let_def expected_row_def round_js_finite LBS_PER_ACRE_FACTOR_def)

lemma emit_step_other:
  "count g \<noteq> 0 \<Longrightarrow> \<forall>slope. get_property slopeTable (KA g) \<noteq> Own slope \<Longrightarrow>
   emit_step S slopeTable acc g =
     (fst acc, if KA g \<in> set (snd acc) then snd acc else snd acc @ [KA g])"
  by (cases "get_property slopeTable (KA g)") (simp_all add: emit_step_def Let_def)

lemma fst_emit_step:
  "set (fst (emit_step S slopeTable acc g)) =
     set (fst acc) \<union>
     {expected_row g slope | slope. count g \<noteq> 0 \<and> get_property slopeTable (KA g) = Own slope}"
proof (cases "count g = 0")
  case True
  then show ?thesis by (simp add: emit_step_zero)
next
  case False
  show ?thesis
  proof (cases "\<exists>slope. get_property slopeTable (KA g) = Own slope")
    case True
    then obtain slope where "get_property slopeTable (KA g) = Own slope" by blast
    with False show ?thesis by (auto simp: emit_step_own)
  next
    case no: False
    with False show ?thesis by (auto simp: emit_step_other)
  qed
qed

lemma snd_emit_step:
  "set (snd (emit_step S slopeTable acc g)) =
     set (snd acc) \<union>
     {k. k = KA g \<and> count g \<noteq> 0 \<and> (\<forall>slope. get_property slopeTable (KA g) \<noteq> Own slope)}"
proof (cases "count g = 0")
  case True
  then show ?thesis by (simp add: emit_step_zero)
next
  case False
  show ?thesis
  proof (cases "\<exists>slope. get_property slopeTable (KA g) = Own slope")
    case True
    then obtain slope where "get_property slopeTable (KA g) = Own slope" by blast
    with False show ?thesis by (auto simp: emit_step_own)
  next
    case no: False
    with False show ?thesis by (auto simp: emit_step_other)
  qed
qed

text \<open>The rows pushed and the unit codes recorded by the loop over the groups.\<close>

lemma emit_rows:
  "set (fst (foldl (emit_step S slopeTable) acc gs)) =
     set (fst acc) \<union>
     {expected_row g slope | g slope.
        g \<in> set gs \<and> count g \<noteq> 0 \<and> get_property slopeTable (KA g) = Own slope}"
proof (induction gs arbitrary: acc)
  case Nil
  then show ?case by simp
next
  case (Cons g gs)
  have "set (fst (foldl (emit_step S slopeTable) acc (g # gs))) =
      set (fst (emit_step S slopeTable acc g)) \<union>
      {expected_row g slope | g slope.
        g \<in> set gs \<and> count g \<noteq> 0 \<and> get_property slopeTable (KA g) = Own slope}"
    by (simp add: Cons)
  then show ?case unfolding fst_emit_step by auto
qed

lemma emit_missing:
  "set (snd (foldl (emit_step S slopeTable) acc gs)) =
     set (snd acc) \<union>
     {KA g | g. g \<in> set gs \<and> count g \<noteq> 0 \<and>
               (\<forall>slope. get_property slopeTable (KA g) \<noteq> Own slope)}"
proof (induction gs arbitrary: acc)
  case Nil
  then show ?case by simp
next
  case (Cons g gs)
  have "set (snd (foldl (emit_step S slopeTable) acc (g # gs))) =
      set (snd (emit_step S slopeTable acc g)) \<union>
      {KA g | g. g \<in> set gs \<and> count g \<noteq> 0 \<and>
               (\<forall>slope. get_property slopeTable (KA g) \<noteq> Own slope)}"
    by (simp add: Cons)
  then show ?case unfolding snd_emit_step by auto
qed


lemma get_property_no_entry: "map_of t k = None \<Longrightarrow> get_property t k \<noteq> Own v"
  by (simp add: get_property_def)

lemma get_property_Own: "get_property t k = Own v \<Longrightarrow> map_of t k = Some v"
  by (auto simp: get_property_def split: option.splits if_splits)

lemma rows_computeProductionFromCY:
  "set (rows (computeProductionFromCY lc S cy prodRows)) =
     {expected_row g slope | g slope.
        g \<in> set (map snd (group_rows S cy)) \<and> count g \<noteq> 0 \<and>
        get_property (computeSlopesByKA S prodRows) (KA g) = Own slope}"
  by (simp add: computeProductionFromCY_def Let_def set_sort_js emit_rows)

lemma missingKAs_computeProductionFromCY:
  "set (missingKAs (computeProductionFromCY lc S cy prodRows)) =
     {KA g | g. g \<in> set (map snd (group_rows S cy)) \<and> count g \<noteq> 0 \<and>
               (\<forall>slope. get_property (computeSlopesByKA S prodRows) (KA g) \<noteq> Own slope)}"
  by (simp add: computeProductionFromCY_def Let_def emit_missing)

lemma group_of_members:
  assumes "members S cy k = r0 # rest"
  shows "\<exists>g. g \<in> set (map snd (group_rows S cy)) \<and> count g \<noteq> 0 \<and>
             DATE g = DATE r0 \<and> ALLOTMENT g = ALLOTMENT r0 \<and> PASTURE g = PASTURE r0 \<and> KA g = KA r0 \<and>
             sumN g / of_nat (count g) = avgYieldValue S (r0 # rest)"
proof -
  define g where "g = \<lparr>DATE = DATE r0, ALLOTMENT = ALLOTMENT r0, PASTURE = PASTURE r0, KA = KA r0,
           sumN = sum_list (map (yield_value S) (r0 # rest)), count = length (r0 # rest)\<rparr>"
  have "group_of S (members S cy k) = Some g" by (simp add: assms g_def)
  then have "(k, g) \<in> set (group_rows S cy)" by (simp add: group_rows_entry)
  then have "g \<in> set (map snd (group_rows S cy))" by force
  moreover have "count g \<noteq> 0" by (simp add: g_def)
  moreover have "sumN g / of_nat (count g) = avgYieldValue S (r0 # rest)"
    by (simp add: g_def avgYieldValue_def)
  ultimately show ?thesis by (intro exI[of _ g]) (simp add: g_def)
qed




lemma KA_expected_row: "KA (expected_row g slope) = KA g"
  by (simp add: expected_row_def Let_def)

text \<open>
  C2. The claim is that every unit code that appears in the yield data on a row with a
  date and a unit code, and has no entry in the slope table, is recorded in the set of
  missing calibrations, and that no production row is emitted for a group with that unit
  code. A row whose yield value is not a finite number is skipped before any group is
  formed, so a unit code that appears on such rows only is not recorded. The claim holds
  for the unit codes of the rows that take part, the yield value being finite, where the
  rows that share the joined key of such a row carry its unit code.
\<close>

theorem missing_calibration_reported:
  assumes "r \<in> set cyRowsProcessed" and "eligible S r"
    and "map_of (computeSlopesByKA S prodRows) (KA r) = None"
    and "\<forall>r'\<in>set cyRowsProcessed. eligible S r' \<and> group_key r' = group_key r \<longrightarrow> KA r' = KA r"
  shows "KA r \<in> set (missingKAs (computeProductionFromCY lc S cyRowsProcessed prodRows))
       \<and> (\<forall>row\<in>set (rows (computeProductionFromCY lc S cyRowsProcessed prodRows)). KA row \<noteq> KA r)"
proof
  from assms(1,2) have "r \<in> set (members S cyRowsProcessed (group_key r))"
    by (simp add: members_def)
  then obtain r0 rest where m: "members S cyRowsProcessed (group_key r) = r0 # rest"
    by (cases "members S cyRowsProcessed (group_key r)") auto
  then have "r0 \<in> set (members S cyRowsProcessed (group_key r))" by simp
  then have "r0 \<in> set cyRowsProcessed" "eligible S r0" "group_key r0 = group_key r"
    by (simp_all add: members_def)
  with assms(4) have ka: "KA r0 = KA r" by blast
  from group_of_members[OF m] obtain g where
    g: "g \<in> set (map snd (group_rows S cyRowsProcessed))" "count g \<noteq> 0" "KA g = KA r0"
    by blast
  from assms(3) g(3) ka have "\<forall>slope. get_property (computeSlopesByKA S prodRows) (KA g) \<noteq> Own slope"
    by (simp add: get_property_no_entry)
  with g(1,2) have "KA g \<in> set (missingKAs (computeProductionFromCY lc S cyRowsProcessed prodRows))"
    unfolding missingKAs_computeProductionFromCY by blast
  with g(3) ka show "KA r \<in> set (missingKAs (computeProductionFromCY lc S cyRowsProcessed prodRows))"
    by simp
next
  show "\<forall>row\<in>set (rows (computeProductionFromCY lc S cyRowsProcessed prodRows)). KA row \<noteq> KA r"
  proof
    fix row assume "row \<in> set (rows (computeProductionFromCY lc S cyRowsProcessed prodRows))"
    then obtain g slope where "row = expected_row g slope"
        "get_property (computeSlopesByKA S prodRows) (KA g) = Own slope"
      unfolding rows_computeProductionFromCY by blast
    then have "KA row = KA g" "map_of (computeSlopesByKA S prodRows) (KA g) = Some slope"
      by (simp_all add: KA_expected_row get_property_Own)
    with assms(3) show "KA row \<noteq> KA r" by auto
  qed
qed

theorem missing_calibration_reported_witness:
  "''V'' \<in> set (missingKAs (computeProductionFromCY compare_units text_is_NaN example_yield example_calibration))
   \<and> list_all (\<lambda>row. KA row \<noteq> ''V'')
        (rows (computeProductionFromCY compare_units text_is_NaN example_yield example_calibration))
   \<and> rows (computeProductionFromCY compare_units text_is_NaN example_yield example_calibration) \<noteq> []"
proof -
  have h1: "example_row ''V'' (Num (Fin 4)) \<in> set example_yield"
    by (simp add: example_yield_def)
  have h2: "eligible text_is_NaN (example_row ''V'' (Num (Fin 4)))"
    by code_simp
  have h3: "map_of (computeSlopesByKA text_is_NaN example_calibration) (KA (example_row ''V'' (Num (Fin 4)))) = None"
    by code_simp
  have h4: "\<forall>r'\<in>set example_yield. eligible text_is_NaN r' \<and> group_key r' = group_key (example_row ''V'' (Num (Fin 4)))
      \<longrightarrow> KA r' = KA (example_row ''V'' (Num (Fin 4)))"
    by (simp add: example_yield_def example_row_def group_key_def)
  have k: "KA (example_row ''V'' (Num (Fin 4))) = ''V''" by (simp add: example_row_def)
  have ne: "rows (computeProductionFromCY compare_units text_is_NaN example_yield example_calibration) \<noteq> []"
    by code_simp
  from missing_calibration_reported[OF h1 h2 h3 h4, of compare_units] ne show ?thesis
    unfolding k list_all_iff by blast
qed

theorem missing_calibration_skipped_row:
  "map_of (computeSlopesByKA text_is_NaN example_calibration) ''V'' = None
   \<and> missingKAs (computeProductionFromCY compare_units text_is_NaN
        [example_row ''U'' (Num (Fin 1)), example_row ''V'' Undefined] example_calibration) = []"
  by code_simp

section \<open>Properties of the Calibration Engine\<close>

lemma slope_step_skip:
  assumes "\<forall>k. \<not> (fit_row S k row \<and> plain_key k)" and "\<forall>n\<in>set object_prototype_names. map_of perKA n = None"
  shows "slope_step S perKA row = perKA"
proof (cases "cal_KA row")
  case None
  then show ?thesis by (simp add: slope_step_def)
next
  case (Some ka)
  show ?thesis
  proof (cases "isFinite (asNumber S (cal_BAG row)) \<and> isFinite (asNumber S (cal_NET_WT row))")
    case False
    then show ?thesis
      using asNumber_cases[of S "cal_BAG row"] asNumber_cases[of S "cal_NET_WT row"] Some
      by (auto simp: slope_step_def)
  next
    case True
    with assms(1) Some have "\<not> plain_key ka" by (simp add: fit_row_def)
    then consider "ka = []" | "ka \<in> set object_prototype_names" by (auto simp: plain_key_def)
    then show ?thesis
    proof cases
      case 1
      with Some show ?thesis
        by (simp add: slope_step_def split: jsnum.splits)
    next
      case 2
      with assms(2) have "get_property perKA ka = Inherited" by (simp add: get_property_def)
      with Some show ?thesis
        by (simp add: slope_step_def Let_def split: jsnum.splits)
    qed
  qed
qed

lemma slope_step_take:
  assumes "fit_row S k row" and "plain_key k"
  shows "slope_step S perKA row =
     (case map_of perKA k of
        None \<Rightarrow> perKA @ [(k, \<lparr>sumXY = bag_value S row * net_value S row,
                               sumX2 = bag_value S row * bag_value S row, stat_count = 1\<rparr>)]
      | Some st \<Rightarrow> AList.update k
                    (st\<lparr>sumXY := sumXY st + bag_value S row * net_value S row,
                        sumX2 := sumX2 st + bag_value S row * bag_value S row,
                        stat_count := stat_count st + 1\<rparr>) perKA)"
proof -
  from assms(1) obtain x y where xy: "asNumber S (cal_BAG row) = Fin x" "asNumber S (cal_NET_WT row) = Fin y"
    using asNumber_cases[of S "cal_BAG row"] asNumber_cases[of S "cal_NET_WT row"]
    by (auto simp: fit_row_def)
  from assms(1) have ka: "cal_KA row = Some k" by (simp add: fit_row_def)
  from assms(2) have k: "k \<noteq> []" "k \<notin> set object_prototype_names" by (simp_all add: plain_key_def)
  show ?thesis
  proof (cases "map_of perKA k")
    case None
    have gp: "get_property perKA k = Missing"
      using None k by (simp add: get_property_def)
    have g1: "get_property (perKA @ [(k, st0)]) k = Own st0" for st0
      using None by (simp add: get_property_def map_add_def)
    show ?thesis
      unfolding None
      by (simp add: slope_step_def ka xy k Let_def gp g1 update_snoc[OF None] bag_value_def net_value_def)
  next
    case (Some st)
    have gp: "get_property perKA k = Own st"
      using Some by (simp add: get_property_def)
    show ?thesis
      unfolding Some
      by (simp add: slope_step_def ka xy k Let_def gp bag_value_def net_value_def)
  qed
qed


lemma stats_of_snoc:
  "stats_of S (ms @ [row]) =
     (case stats_of S ms of
        None \<Rightarrow> Some \<lparr>sumXY = bag_value S row * net_value S row,
                      sumX2 = bag_value S row * bag_value S row, stat_count = 1\<rparr>
      | Some st \<Rightarrow> Some (st\<lparr>sumXY := sumXY st + bag_value S row * net_value S row,
                            sumX2 := sumX2 st + bag_value S row * bag_value S row,
                            stat_count := stat_count st + 1\<rparr>))"
  by (simp add: stats_of_def sum_xy_def sum_x2_def)

lemma fit_rows_snoc:
  "fit_rows S (xs @ [row]) k = fit_rows S xs k @ (if fit_row S k row then [row] else [])"
  by (simp add: fit_rows_def)

lemma fit_row_unique: "fit_row S k row \<Longrightarrow> fit_row S k' row \<Longrightarrow> k' = k"
  by (simp add: fit_row_def)

text \<open>The table \<open>perKA\<close> after the loop over the calibration rows.\<close>

lemma perKA_table:
  "distinct (map fst (foldl (slope_step S) [] prodRows)) \<and>
   (\<forall>k. map_of (foldl (slope_step S) [] prodRows) k =
          (if plain_key k then stats_of S (fit_rows S prodRows k) else None))"
proof (induction prodRows rule: rev_induct)
  case Nil
  then show ?case by (simp add: fit_rows_def stats_of_def)
next
  case (snoc row xs)
  define perKA where "perKA = foldl (slope_step S) [] xs"
  from snoc have d: "distinct (map fst perKA)"
    and l: "\<And>k. map_of perKA k = (if plain_key k then stats_of S (fit_rows S xs k) else None)"
    by (simp_all add: perKA_def)
  have f: "foldl (slope_step S) [] (xs @ [row]) = slope_step S perKA row"
    by (simp add: perKA_def)
  show ?case
  proof (cases "\<exists>k. fit_row S k row \<and> plain_key k")
    case False
    have "\<forall>n\<in>set object_prototype_names. map_of perKA n = None"
      by (simp add: l plain_key_def)
    with False have s: "slope_step S perKA row = perKA" by (simp add: slope_step_skip)
    have "fit_rows S (xs @ [row]) k = fit_rows S xs k" if "plain_key k" for k
      using False that by (auto simp: fit_rows_snoc)
    with d l show ?thesis unfolding f s by simp
  next
    case True
    then obtain k where k: "fit_row S k row" "plain_key k" by blast
    have other: "fit_rows S (xs @ [row]) k' = fit_rows S xs k'" if "k' \<noteq> k" for k'
      using fit_row_unique[OF k(1)] that by (auto simp: fit_rows_snoc)
    have this_k: "fit_rows S (xs @ [row]) k = fit_rows S xs k @ [row]"
      using k(1) by (simp add: fit_rows_snoc)
    show ?thesis
    proof (cases "map_of perKA k")
      case None
      have s: "slope_step S perKA row = perKA @ [(k, \<lparr>sumXY = bag_value S row * net_value S row,
                               sumX2 = bag_value S row * bag_value S row, stat_count = 1\<rparr>)]"
        unfolding slope_step_take[OF k] None by simp
      from None l[of k] k(2) have st: "stats_of S (fit_rows S xs k) = None" by simp
      from None have "k \<notin> fst ` set perKA" by (simp add: map_of_eq_None_iff)
      with d have d': "distinct (map fst (slope_step S perKA row))" unfolding s by simp
      have "map_of (slope_step S perKA row) k' =
          (if plain_key k' then stats_of S (fit_rows S (xs @ [row]) k') else None)" for k'
      proof (cases "k' = k")
        case True
        with None k(2) show ?thesis
          unfolding s map_of_snoc by (simp add: this_k stats_of_snoc st)
      next
        case False
        then show ?thesis
          unfolding s map_of_snoc by (simp add: other l split: option.splits)
      qed
      with d' show ?thesis unfolding f by blast
    next
      case (Some st)
      have s: "slope_step S perKA row = AList.update k
                    (st\<lparr>sumXY := sumXY st + bag_value S row * net_value S row,
                        sumX2 := sumX2 st + bag_value S row * bag_value S row,
                        stat_count := stat_count st + 1\<rparr>) perKA"
        unfolding slope_step_take[OF k] Some by simp
      from Some l[of k] k(2) have st: "stats_of S (fit_rows S xs k) = Some st" by simp
      from d have d': "distinct (map fst (slope_step S perKA row))" unfolding s by (rule distinct_update)
      have "map_of (slope_step S perKA row) k' =
          (if plain_key k' then stats_of S (fit_rows S (xs @ [row]) k') else None)" for k'
      proof (cases "k' = k")
        case True
        with k(2) show ?thesis
          unfolding s update_conv' by (simp add: this_k stats_of_snoc st)
      next
        case False
        then show ?thesis
          unfolding s update_conv' by (simp add: other l)
      qed
      with d' show ?thesis unfolding f by blast
    qed
  qed
qed

lemma map_of_filter_map:
  "distinct (map fst al) \<Longrightarrow>
   map_of (map (\<lambda>(k, v). (k, f v)) (filter (\<lambda>(k, v). P v) al)) k =
     (case map_of al k of None \<Rightarrow> None | Some v \<Rightarrow> if P v then Some (f v) else None)"
proof (induction al)
  case Nil
  then show ?case by simp
next
  case (Cons a al)
  obtain k0 v0 where a: "a = (k0, v0)" by (cases a)
  from Cons.prems a have "k0 \<notin> fst ` set al" and "distinct (map fst al)" by auto
  then have "map_of al k0 = None" by (simp add: map_of_eq_None_iff)
  with Cons.IH[OF \<open>distinct (map fst al)\<close>] show ?case
    by (cases "k = k0") (simp_all add: a)
qed

text \<open>
  For a unit code that is not empty and is not the name of a member of
  \<^verbatim>\<open>Object.prototype\<close> the slope table holds the fitted slope, and it has an entry
  exactly when the sum of the squared bag numbers is positive. For the other names it
  has no entry.
\<close>

lemma slope_table:
  "map_of (computeSlopesByKA S prodRows) k =
     (if plain_key k then fitted_slope S prodRows k else None)"
proof -
  define perKA where "perKA = foldl (slope_step S) [] prodRows"
  from perKA_table[of S prodRows] have d: "distinct (map fst perKA)"
    and l: "map_of perKA k = (if plain_key k then stats_of S (fit_rows S prodRows k) else None)"
    by (simp_all add: perKA_def)
  have "map_of (computeSlopesByKA S prodRows) k =
      (case map_of perKA k of None \<Rightarrow> None
       | Some st \<Rightarrow> if 0 < sumX2 st then Some (sumXY st / sumX2 st) else None)"
    unfolding computeSlopesByKA_def Let_def perKA_def[symmetric]
    using map_of_filter_map[OF d, of "\<lambda>st. sumXY st / sumX2 st" "\<lambda>st. 0 < sumX2 st" k] by simp
  also have "\<dots> = (if plain_key k then fitted_slope S prodRows k else None)"
    unfolding l by (simp add: stats_of_def fitted_slope_def Let_def sum_x2_def)
  finally show ?thesis .
qed

lemma slope_example:
  "computeSlopesByKA text_is_NaN example_calibration = [(''U'', 10)]"
  by code_simp

text \<open>
  C3. The claim is that the slope table maps every unit code to the fitted slope and has
  an entry exactly when the sum of the squared bag numbers is positive. The table
  \<open>perKA\<close> is an object literal, and the test \<^verbatim>\<open>!perKA[KA]\<close> finds the inherited
  member for a unit code such as \<open>constructor\<close>: no entry is created, the sums are
  added to that member, and the unit gets no slope although its rows are the rows of the
  example, with squared bag numbers summing to 35.
\<close>

theorem slope_prototype_name:
  "computeSlopesByKA text_is_NaN
     [\<lparr>cal_KA = Some ''constructor'', cal_BAG = Num (Fin 1), cal_NET_WT = Num (Fin 10)\<rparr>,
      \<lparr>cal_KA = Some ''constructor'', cal_BAG = Num (Fin 3), cal_NET_WT = Num (Fin 30)\<rparr>,
      \<lparr>cal_KA = Some ''constructor'', cal_BAG = Num (Fin 5), cal_NET_WT = Num (Fin 50)\<rparr>] = []
   \<and> fitted_slope text_is_NaN
     [\<lparr>cal_KA = Some ''constructor'', cal_BAG = Num (Fin 1), cal_NET_WT = Num (Fin 10)\<rparr>,
      \<lparr>cal_KA = Some ''constructor'', cal_BAG = Num (Fin 3), cal_NET_WT = Num (Fin 30)\<rparr>,
      \<lparr>cal_KA = Some ''constructor'', cal_BAG = Num (Fin 5), cal_NET_WT = Num (Fin 50)\<rparr>]
     ''constructor'' = Some 10"
  by code_simp

end
